theory Spec2Isabelle
  imports Complex_Main "HOL-Library.Sublist" "HOL-Library.Multiset"
begin

section \<open>Python strings\<close>

text \<open>
  A Python \<open>str\<close> is a sequence of code points. It is modelled as a \<open>string\<close>, one
  \<open>char\<close> per code point, which covers the code points U+0000 to U+00FF. The character
  classes and case mappings below are Python's on that range.
\<close>

definition is_space :: "char \<Rightarrow> bool" where
  \<comment> \<open>\<open>str.isspace\<close> on one code point; also the class \<open>\s\<close> of \<open>re\<close> on \<open>str\<close> patterns.\<close>
  "is_space c = (of_char c \<in> {9, 10, 11, 12, 13, 28, 29, 30, 31, 32, 133, 160 :: nat})"

definition lower_char :: "char \<Rightarrow> char" where
  \<comment> \<open>A to Z and the capital letters U+00C0 to U+00DE (but the sign U+00D7) move up by 32,
      which sets the bit of value 32.\<close>
  "lower_char c =
     (let n = of_char c :: nat
      in if (65 \<le> n \<and> n \<le> 90) \<or> (192 \<le> n \<and> n \<le> 222 \<and> n \<noteq> 215)
         then Char (digit0 c) (digit1 c) (digit2 c) (digit3 c) (digit4 c) True (digit6 c) (digit7 c)
         else c)"

definition upper_char :: "char \<Rightarrow> char" where
  \<comment> \<open>a to z and the small letters U+00E0 to U+00FE (but the sign U+00F7) move down by 32.
      The uppercase of U+00B5, U+00DF and U+00FF is not a single code point below 256; these
      three are left as they are, and \<open>py_upper\<close> is only applied to text that the header
      pattern of \<open>parse_sections\<close> has matched, where they cannot occur.\<close>
  "upper_char c =
     (let n = of_char c :: nat
      in if (97 \<le> n \<and> n \<le> 122) \<or> (224 \<le> n \<and> n \<le> 254 \<and> n \<noteq> 247)
         then Char (digit0 c) (digit1 c) (digit2 c) (digit3 c) (digit4 c) False (digit6 c) (digit7 c)
         else c)"

definition py_lower :: "string \<Rightarrow> string" where
  "py_lower s = map lower_char s"

definition py_upper :: "string \<Rightarrow> string" where
  "py_upper s = map upper_char s"

definition strip :: "string \<Rightarrow> string" where
  \<comment> \<open>\<open>s.strip()\<close>\<close>
  "strip s = rev (dropWhile is_space (rev (dropWhile is_space s)))"

fun py_in :: "string \<Rightarrow> string \<Rightarrow> bool" where
  \<comment> \<open>\<open>sub in s\<close>\<close>
  "py_in sub [] = (sub = [])"
| "py_in sub (c # cs) = (prefix sub (c # cs) \<or> py_in sub cs)"

function py_count :: "string \<Rightarrow> string \<Rightarrow> nat" where
  \<comment> \<open>\<open>s.count(sub)\<close>: the occurrences of \<open>sub\<close> found from left to right without overlap\<close>
  "py_count sub s =
     (if sub = [] then length s + 1
      else if s = [] then 0
      else if prefix sub s then 1 + py_count sub (drop (length sub) s)
      else py_count sub (tl s))"
  by pat_completeness auto
termination
  by (relation "measure (\<lambda>(sub, s). length s)") auto

fun split_nl :: "string \<Rightarrow> string list" where
  \<comment> \<open>\<open>s.split('\n')\<close>\<close>
  "split_nl [] = [[]]"
| "split_nl (c # cs) =
     (if c = CHR 0x0A then [] # split_nl cs
      else (case split_nl cs of [] \<Rightarrow> [[c]] | l # ls \<Rightarrow> (c # l) # ls))"

section \<open>Python values\<close>

text \<open>
  The dictionaries the analysis functions return hold strings, integers, booleans, floats,
  lists and dictionaries. A dictionary is an association list in the order of the source's
  dictionary display. The type \<open>'f\<close> is the type of floats.
\<close>

datatype 'f pyval =
    PStr string
  | PInt int
  | PFloat 'f
  | PBool bool
  | PList "'f pyval list"
  | PDict "(string \<times> 'f pyval) list"

section \<open>\<open>analyze_security_patterns\<close>\<close>

record pattern =
  indicators :: "string list"
  severity :: string
  description :: string

definition patterns :: "(string \<times> pattern) list" where
  "patterns =
    [(''sql_injection'',
        \<lparr>indicators = [''execute('', ''query('', ''raw('', ''filter('', ''SELECT'', ''INSERT'',
                        ''UPDATE'', ''DELETE''],
         severity = ''Critical'',
         description = ''Potential SQL injection vulnerability detected''\<rparr>),
     (''xss'',
        \<lparr>indicators = [''innerHTML'', ''dangerouslySetInnerHTML'', ''document.write'', ''eval(''],
         severity = ''High'',
         description = ''Potential XSS vulnerability detected''\<rparr>),
     (''auth'',
        \<lparr>indicators = [''password'', ''token'', ''session'', ''auth'', ''login'', ''credential''],
         severity = ''High'',
         description = ''Authentication/Authorization pattern detected''\<rparr>),
     (''secrets'',
        \<lparr>indicators = [''api_key'', ''secret'', ''password ='', ''token ='', ''AWS_'', ''SECRET_KEY''],
         severity = ''Critical'',
         description = ''Potential hardcoded secrets detected''\<rparr>),
     (''csrf'',
        \<lparr>indicators = [''POST'', ''PUT'', ''DELETE'', ''form'', ''csrf''],
         severity = ''Medium'',
         description = ''CSRF protection check required''\<rparr>),
     (''input_validation'',
        \<lparr>indicators = [''input('', ''request.'', ''params'', ''query'', ''body''],
         severity = ''High'',
         description = ''Input validation required''\<rparr>)]"

definition finding :: "pattern \<Rightarrow> string \<Rightarrow> 'f pyval" where
  "finding p indicator =
     PDict [(''indicator'', PStr indicator),
            (''severity'', PStr (severity p)),
            (''description'', PStr (description p)),
            (''found'', PBool True)]"

fun findings_loop :: "pattern \<Rightarrow> string \<Rightarrow> string list \<Rightarrow> 'f pyval list \<Rightarrow> 'f pyval list" where
  \<comment> \<open>the loop over \<open>pattern['indicators']\<close>, appending to \<open>findings\<close>\<close>
  "findings_loop p code [] findings = findings"
| "findings_loop p code (indicator # rest) findings =
     findings_loop p code rest
       (if py_in (py_lower indicator) (py_lower code)
        then findings @ [finding p indicator] else findings)"

definition analyze_security_patterns :: "string \<Rightarrow> string \<Rightarrow> 'f pyval" where
  "analyze_security_patterns code pattern_type =
     (case map_of patterns pattern_type of
        None \<Rightarrow> PDict [(''error'', PStr (''Unknown pattern type: '' @ pattern_type))]
      | Some p \<Rightarrow>
          (let findings = findings_loop p code (indicators p) []
           in PDict [(''pattern_type'', PStr pattern_type),
                     (''findings'', PList findings),
                     (''total_findings'', PInt (int (length findings))),
                     (''severity'', PStr (if findings \<noteq> [] then severity p else ''None''))]))"

section \<open>\<open>calculate_complexity_metrics\<close>\<close>

definition loops :: "string list" where
  "loops = [''for '', ''while '', ''foreach'']"

fun nesting_loop :: "string list \<Rightarrow> int \<times> int \<times> int \<Rightarrow> int \<times> int \<times> int" where
  \<comment> \<open>the loop over \<open>lines\<close>; its state is \<open>(nesting_level, max_nesting, nested_loops)\<close>\<close>
  "nesting_loop [] st = st"
| "nesting_loop (line # rest) (nesting_level, max_nesting, nested_loops) =
     (let (nesting_level, max_nesting, nested_loops) =
            (if list_ex (\<lambda>loop. py_in loop (py_lower line)) loops
             then (nesting_level + 1, max max_nesting (nesting_level + 1),
                   if nesting_level + 1 > 1 then nested_loops + 1 else nested_loops)
             else (nesting_level, max_nesting, nested_loops));
          nesting_level =
            (if py_in ''}'' line \<or> py_in ''end'' (py_lower line)
             then max 0 (nesting_level - 1) else nesting_level)
      in nesting_loop rest (nesting_level, max_nesting, nested_loops))"

definition calculate_complexity_metrics :: "string \<Rightarrow> 'f pyval" where
  "calculate_complexity_metrics code =
     (let lines = split_nl code;
          total_lines = int (length lines);
          db_queries = int (py_count ''query'' (py_lower code))
                     + int (py_count ''select'' (py_lower code))
                     + int (py_count ''find('' (py_lower code));
          (nesting_level, max_nesting, nested_loops) = nesting_loop lines (0, 0, 0);
          async_operations = int (py_count ''async'' (py_lower code))
                           + int (py_count ''await'' (py_lower code))
                           + int (py_count ''promise'' (py_lower code));
          blocking_operations = int (py_count ''sleep'' (py_lower code))
                              + int (py_count ''thread.'' (py_lower code))
                              + int (py_count ''lock'' (py_lower code));
          complexity_score = nested_loops * 3 + db_queries * 2 + blocking_operations * 4
                           + max_nesting * 2;
          (complexity_level, impact) =
            (if complexity_score > 20 then (''High'', ''Significant performance issues likely'')
             else if complexity_score > 10 then (''Medium'', ''Moderate performance concerns'')
             else (''Low'', ''Good performance characteristics''))
      in PDict [(''total_lines'', PInt total_lines),
                (''nested_loops'', PInt nested_loops),
                (''database_queries'', PInt db_queries),
                (''async_operations'', PInt async_operations),
                (''blocking_operations'', PInt blocking_operations),
                (''max_nesting_level'', PInt max_nesting),
                (''complexity_score'', PInt complexity_score),
                (''complexity_level'', PStr complexity_level),
                (''performance_impact'', PStr impact)])"

fun dict_get :: "'f pyval \<Rightarrow> string \<Rightarrow> 'f pyval option" where
  \<comment> \<open>the value a returned dictionary holds under a key, if any\<close>
  "dict_get (PDict kvs) k = map_of kvs k"
| "dict_get _ k = None"

section \<open>\<open>assess_code_quality_metrics\<close>\<close>

text \<open>
  The function computes with floats. Their arithmetic is a parameter: a record of the
  operations of Python that the function uses on a float, each named after the operand
  types. No property below depends on what they compute.
\<close>

record 'f float_ops =
  int_truediv :: "int \<Rightarrow> int \<Rightarrow> 'f"      \<comment> \<open>\<open>a / b\<close> on two integers, \<open>b\<close> not zero\<close>
  float_mul_int :: "'f \<Rightarrow> int \<Rightarrow> 'f"    \<comment> \<open>\<open>x * n\<close>\<close>
  int_mul_float :: "int \<Rightarrow> 'f \<Rightarrow> 'f"    \<comment> \<open>\<open>n * x\<close>\<close>
  int_add_float :: "int \<Rightarrow> 'f \<Rightarrow> 'f"    \<comment> \<open>\<open>n + x\<close>\<close>
  float_add_int :: "'f \<Rightarrow> int \<Rightarrow> 'f"    \<comment> \<open>\<open>x + n\<close>\<close>
  float_lt_int :: "'f \<Rightarrow> int \<Rightarrow> bool"   \<comment> \<open>\<open>x < n\<close>\<close>
  int_lt_float :: "int \<Rightarrow> 'f \<Rightarrow> bool"   \<comment> \<open>\<open>n < x\<close>\<close>
  float_round :: "'f \<Rightarrow> int \<Rightarrow> 'f"      \<comment> \<open>\<open>round(x, n)\<close>\<close>
  float_tenth :: "'f"                  \<comment> \<open>the literal \<open>0.1\<close>\<close>

datatype 'f pynum = NInt int | NFloat 'f
  \<comment> \<open>\<open>quality_score\<close> is an \<open>int\<close> or a \<open>float\<close>, depending on the path taken\<close>

fun num_add_int :: "'f float_ops \<Rightarrow> 'f pynum \<Rightarrow> int \<Rightarrow> 'f pynum" where
  "num_add_int ops (NInt a) n = NInt (a + n)"
| "num_add_int ops (NFloat x) n = NFloat (float_add_int ops x n)"

fun int_add_num :: "'f float_ops \<Rightarrow> int \<Rightarrow> 'f pynum \<Rightarrow> 'f pynum" where
  "int_add_num ops n (NInt a) = NInt (n + a)"
| "int_add_num ops n (NFloat x) = NFloat (int_add_float ops n x)"

fun num_gt_int :: "'f float_ops \<Rightarrow> 'f pynum \<Rightarrow> int \<Rightarrow> bool" where
  "num_gt_int ops (NInt a) n = (a > n)"
| "num_gt_int ops (NFloat x) n = int_lt_float ops n x"

fun num_round :: "'f float_ops \<Rightarrow> 'f pynum \<Rightarrow> int \<Rightarrow> 'f pyval" where
  \<comment> \<open>\<open>round(q, n)\<close> with \<open>n\<close> not negative: an \<open>int\<close> is returned as it is\<close>
  "num_round ops (NInt a) n = PInt a"
| "num_round ops (NFloat x) n = PFloat (float_round ops x n)"

definition assess_code_quality_metrics :: "'f float_ops \<Rightarrow> string \<Rightarrow> 'f pyval" where
  "assess_code_quality_metrics ops code =
     (let lines = split_nl code;
          total_lines = int (length (filter (\<lambda>l. strip l \<noteq> []) lines));
          comment_lines =
            int (length (filter (\<lambda>l. prefix ''#'' (strip l) \<or> prefix ''//'' (strip l)) lines));
          long_lines = int (length (filter (\<lambda>l. length l > 100) lines));
          function_count = int (py_count ''def '' (py_lower code))
                         + int (py_count ''function '' (py_lower code))
                         + int (py_count ''const '' (py_lower code))
                         + int (py_count ''let '' (py_lower code))
                         + int (py_count ''var '' (py_lower code));
          avg_function_length = int_truediv ops total_lines (max function_count 1);
          naming_issues =
            (if list_ex (\<lambda>char. py_in char code) [''a='', ''b='', ''x='', ''y='', ''temp='', ''tmp='']
             then [PStr ''Short/unclear variable names detected''] else []);
          has_error_handling =
            (py_in ''try'' (py_lower code)
             \<and> (py_in ''catch'' (py_lower code) \<or> py_in ''except'' (py_lower code)));
          has_documentation =
            (py_in [CHR 0x22, CHR 0x22, CHR 0x22] code \<or> py_in ''///'' code \<or> py_in ''/**'' code);
          comment_ratio =
            float_mul_int ops (int_truediv ops comment_lines (max total_lines 1)) 100;
          quality_score = (0 :: int);
          quality_score =
            int_add_num ops quality_score
              (if float_lt_int ops (float_mul_int ops comment_ratio 3) 30
               then NFloat (float_mul_int ops comment_ratio 3) else NInt 30);
          quality_score = num_add_int ops quality_score (if has_error_handling then 20 else 0);
          quality_score = num_add_int ops quality_score (if has_documentation then 15 else 0);
          quality_score =
            num_add_int ops quality_score
              (if float_lt_int ops avg_function_length 30 then 20
               else if float_lt_int ops avg_function_length 50 then 10 else 0);
          quality_score =
            num_add_int ops quality_score
              (if int_lt_float ops long_lines (int_mul_float ops total_lines (float_tenth ops))
               then 15 else 5)
      in PDict [(''total_lines'', PInt total_lines),
                (''comment_lines'', PInt comment_lines),
                (''comment_ratio'', PFloat (float_round ops comment_ratio 2)),
                (''long_lines'', PInt long_lines),
                (''function_count'', PInt function_count),
                (''avg_function_length'', PFloat (float_round ops avg_function_length 2)),
                (''has_error_handling'', PBool has_error_handling),
                (''has_documentation'', PBool has_documentation),
                (''naming_issues'', PList naming_issues),
                (''quality_score'', num_round ops quality_score 2),
                (''quality_level'',
                   PStr (if num_gt_int ops quality_score 70 then ''High''
                         else if num_gt_int ops quality_score 40 then ''Medium'' else ''Low''))])"

definition round_half_even :: "rat \<Rightarrow> int" where
  "round_half_even y =
     (let f = \<lfloor>y\<rfloor>; d = y - of_int f
      in if d < 1 / 2 then f else if 1 / 2 < d then f + 1 else if even f then f else f + 1)"

definition rational_ops :: "rat float_ops" where
  \<comment> \<open>An instance of the operations for running examples: exact arithmetic on rationals.
      It stands in for the doubles of Python and can differ from them in the last digits.\<close>
  "rational_ops =
     \<lparr>int_truediv = (\<lambda>a b. of_int a / of_int b),
      float_mul_int = (\<lambda>x n. x * of_int n),
      int_mul_float = (\<lambda>n x. of_int n * x),
      int_add_float = (\<lambda>n x. of_int n + x),
      float_add_int = (\<lambda>x n. x + of_int n),
      float_lt_int = (\<lambda>x n. x < of_int n),
      int_lt_float = (\<lambda>n x. of_int n < x),
      float_round = (\<lambda>x n. of_int (round_half_even (x * 10 ^ nat n)) / 10 ^ nat n),
      float_tenth = 1 / 10\<rparr>"

section \<open>\<open>parse_sections\<close>\<close>

definition headers :: "string list" where
  \<comment> \<open>the alternatives of the group of \<open>pattern\<close>, in the order of the pattern\<close>
  "headers = [''SECURITY ANALYSIS'', ''PERFORMANCE ANALYSIS'', ''READABILITY ANALYSIS'',
              ''COMPREHENSIVE SUMMARY'']"

definition ci_prefix :: "string \<Rightarrow> string \<Rightarrow> bool" where
  \<comment> \<open>the literal \<open>h\<close> matches at the start of \<open>s\<close> under \<open>re.IGNORECASE\<close>\<close>
  "ci_prefix h s = (length h \<le> length s \<and> py_lower (take (length h) s) = py_lower h)"

definition match_at :: "string \<Rightarrow> (string \<times> string) option" where
  \<comment> \<open>\<open>pattern\<close> matched at the start of \<open>s\<close>: two hash signs, one or more characters of
      \<open>\s\<close>, one of the headers. The result is the text of the group and the text after the
      match. No header starts with a character of \<open>\s\<close>, so the greedy \<open>\s+\<close> takes the whole
      run of them.\<close>
  "match_at s =
     (if prefix ''##'' s
      then (let r = drop 2 s; r' = dropWhile is_space r
            in if takeWhile is_space r = [] then None
               else (case find (\<lambda>h. ci_prefix h r') headers of
                       None \<Rightarrow> None
                     | Some h \<Rightarrow> Some (take (length h) r', drop (length h) r')))
      else None)"

fun first_match :: "string \<Rightarrow> (string \<times> string \<times> string) option" where
  \<comment> \<open>the leftmost match of \<open>pattern\<close> in \<open>s\<close>: the text before it, the text of the group and
      the text after it\<close>
  "first_match [] = None"
| "first_match (c # cs) =
     (case match_at (c # cs) of
        Some (g, r) \<Rightarrow> Some ([], g, r)
      | None \<Rightarrow> (case first_match cs of
                   None \<Rightarrow> None
                 | Some (p, g, r) \<Rightarrow> Some (c # p, g, r)))"

function re_split :: "string \<Rightarrow> string list" where
  \<comment> \<open>\<open>re.split(pattern, s, flags=re.IGNORECASE)\<close>: the texts between the matches, with the
      text of the group of each match between them\<close>
  "re_split s =
     (case first_match s of
        None \<Rightarrow> [s]
      | Some (p, g, r) \<Rightarrow> p # g # re_split r)"
  by pat_completeness auto
termination
proof (relation "measure length")
  show "wf (measure length)" by simp
next
  fix s :: string and x p y g r
  assume "first_match s = Some x" "(p, y) = x" "(g, r) = y"
  then have fm: "first_match s = Some (p, g, r)" by simp
  have m: "length r < length t" if a: "match_at t = Some (g, r)" for t g r
  proof -
    from a have pre: "prefix ''##'' t"
      and "length r \<le> length (dropWhile is_space (drop 2 t))"
      by (auto simp: match_at_def Let_def split: if_splits option.splits)
    then have "length r \<le> length (drop 2 t)"
      using length_dropWhile_le [of is_space "drop 2 t"] by simp
    moreover have "2 \<le> length t"
      using pre by (auto simp: prefix_def)
    ultimately show ?thesis by simp
  qed
  have "\<And>p g r. first_match s = Some (p, g, r) \<Longrightarrow> length r < length s"
  proof (induction s)
    case Nil
    then show ?case by simp
  next
    case (Cons c cs)
    show ?case
    proof (cases "match_at (c # cs)")
      case None
      with Cons.prems obtain p' where "first_match cs = Some (p', g, r)"
        by (auto split: option.splits)
      then have "length r < length cs" by (rule Cons.IH)
      then show ?thesis by simp
    next
      case (Some a)
      with Cons.prems have "match_at (c # cs) = Some (g, r)"
        by (auto split: prod.splits)
      then show ?thesis by (rule m)
    qed
  qed
  with fm show "(r, s) \<in> measure length" by simp
qed

definition section_key :: "string \<Rightarrow> string option" where
  \<comment> \<open>the chain of tests on \<open>section_name\<close>: the key of \<open>sections\<close> that is assigned, if any\<close>
  "section_key section_name =
     (if py_in ''SECURITY'' section_name then Some ''security''
      else if py_in ''PERFORMANCE'' section_name then Some ''performance''
      else if py_in ''READABILITY'' section_name then Some ''readability''
      else if py_in ''SUMMARY'' section_name \<or> py_in ''COMPREHENSIVE'' section_name
           then Some ''summary''
      else None)"

function parse_loop :: "nat \<Rightarrow> string list \<Rightarrow> (string \<rightharpoonup> string) \<Rightarrow> (string \<rightharpoonup> string)" where
  \<comment> \<open>\<open>for i in range(1, len(parts), 2)\<close>, from the index \<open>i\<close> on\<close>
  "parse_loop i parts sections =
     (if i < length parts
      then (if i + 1 < length parts
            then (let section_name = py_upper (strip (parts ! i));
                      section_content = strip (parts ! (i + 1))
                  in parse_loop (i + 2) parts
                       (case section_key section_name of
                          Some k \<Rightarrow> sections(k \<mapsto> section_content)
                        | None \<Rightarrow> sections))
            else parse_loop (i + 2) parts sections)
      else sections)"
  by pat_completeness auto
termination
  by (relation "measure (\<lambda>(i, parts, sections). length parts - i)") auto

definition parse_sections :: "string \<Rightarrow> (string \<rightharpoonup> string)" where
  "parse_sections full_response =
     parse_loop 1 (re_split full_response)
       [''security'' \<mapsto> [], ''performance'' \<mapsto> [], ''readability'' \<mapsto> [], ''summary'' \<mapsto> []]"

section \<open>\<open>generate_review_stream\<close>\<close>

text \<open>
  A frame is the dictionary that one \<open>yield\<close> of the generator serialises; the text sent is
  \<open>data: \<close>, the JSON of the dictionary and two newlines. An exception is its type's name,
  its message and whether its class derives from \<open>Exception\<close>: the handler of the generator
  is \<open>except Exception\<close>, which does not catch \<open>KeyboardInterrupt\<close>, \<open>SystemExit\<close> or
  \<open>asyncio.CancelledError\<close>. The agent with its model is outside the program: \<open>agent query\<close>
  is what \<open>extract_text_from_result(code_review_agent(query))\<close> does, which raises or returns
  a text.
\<close>

type_synonym frame = "(string \<times> string) list"

record py_exception =
  exc_type :: string      \<comment> \<open>\<open>type(e).__name__\<close>\<close>
  exc_message :: string   \<comment> \<open>\<open>str(e)\<close>\<close>
  is_exception :: bool    \<comment> \<open>\<open>isinstance(e, Exception)\<close>\<close>

definition build_query :: "string \<Rightarrow> string" where
  "build_query code =
     ''Analyze this code following the exact structure with all four sections:''
     @ [CHR 0x0A, CHR 0x0A] @ ''Code to analyze:'' @ [CHR 0x0A] @ ''```'' @ [CHR 0x0A]
     @ code @ [CHR 0x0A] @ ''```'' @ [CHR 0x0A, CHR 0x0A]
     @ ''Provide your analysis with these exact section headers:'' @ [CHR 0x0A]
     @ ''## SECURITY ANALYSIS'' @ [CHR 0x0A]
     @ ''## PERFORMANCE ANALYSIS'' @ [CHR 0x0A]
     @ ''## READABILITY ANALYSIS'' @ [CHR 0x0A]
     @ ''## COMPREHENSIVE SUMMARY''"

definition section_order :: "string list" where
  "section_order = [''security'', ''performance'', ''readability'', ''summary'']"

definition slice :: "string \<Rightarrow> nat \<Rightarrow> nat \<Rightarrow> string" where
  \<comment> \<open>\<open>s[i:j]\<close> for indices that are not negative\<close>
  "slice s i j = take (j - i) (drop i s)"

function content_loop :: "string \<Rightarrow> string \<Rightarrow> nat \<Rightarrow> frame list" where
  \<comment> \<open>\<open>for i in range(0, len(content), 50)\<close>, from the index \<open>i\<close> on: the frames yielded\<close>
  "content_loop section_name content i =
     (if i < length content
      then [(''type'', ''content''), (''section'', section_name),
            (''content'', slice content i (i + 50))]
           # content_loop section_name content (i + 50)
      else [])"
  by pat_completeness auto
termination
  by (relation "measure (\<lambda>(section_name, content, i). length content - i)") auto

fun section_loop :: "(string \<rightharpoonup> string) \<Rightarrow> string list \<Rightarrow> frame list \<times> py_exception option" where
  \<comment> \<open>\<open>for section_name in section_order\<close>: the frames yielded, and the exception that ended
      the loop, if one did. \<open>sections[section_name]\<close> raises \<open>KeyError\<close> on a missing key.\<close>
  "section_loop sections [] = ([], None)"
| "section_loop sections (section_name # rest) =
     (let start = [(''type'', ''section_start''), (''section'', section_name)]
      in case sections section_name of
           None \<Rightarrow>
             ([start],
              Some \<lparr>exc_type = ''KeyError'',
                    exc_message = [CHR 0x27] @ section_name @ [CHR 0x27],
                    is_exception = True\<rparr>)
         | Some text \<Rightarrow>
             (let content = strip text;
                  body = (if content \<noteq> [] then content_loop section_name content 0
                          else [[(''type'', ''content''), (''section'', section_name),
                                 (''content'', ''No specific issues found in this category.'')]]);
                  done = [(''type'', ''section_complete''), (''section'', section_name)];
                  (frames, exc) = section_loop sections rest
              in (start # body @ done # frames, exc)))"

definition review_body ::
  "(string \<Rightarrow> py_exception + string) \<Rightarrow> string \<Rightarrow> frame list \<times> py_exception option" where
  \<comment> \<open>the body of the \<open>try\<close> statement: the frames it yields, and the exception it raises, if
      it raises one\<close>
  "review_body agent code =
     (case agent (build_query code) of
        Inl e \<Rightarrow> ([], Some e)
      | Inr full_analysis \<Rightarrow>
          (let sections = parse_sections full_analysis;
               (frames, exc) = section_loop sections section_order
           in case exc of
                Some e \<Rightarrow> (frames, Some e)
              | None \<Rightarrow> (frames @ [[(''type'', ''complete'')]], None)))"

definition generate_review_stream ::
  "(string \<Rightarrow> py_exception + string) \<Rightarrow> string \<Rightarrow> frame list" where
  \<comment> \<open>the frames of the stream, in the order they are sent. The handler yields the error
      frame for an exception of the class \<open>Exception\<close> only.\<close>
  "generate_review_stream agent code =
     (case review_body agent code of
        (frames, None) \<Rightarrow> frames
      | (frames, Some e) \<Rightarrow>
          (if is_exception e
           then frames @ [[(''type'', ''error''),
                           (''message'', exc_type e @ '': '' @ exc_message e)]]
           else frames))"

definition uncaught_exception ::
  "(string \<Rightarrow> py_exception + string) \<Rightarrow> string \<Rightarrow> py_exception option" where
  \<comment> \<open>the exception that leaves the generator, if one does: one that the body raises and
      the handler does not catch\<close>
  "uncaught_exception agent code =
     (case review_body agent code of
        (frames, None) \<Rightarrow> None
      | (frames, Some e) \<Rightarrow> (if is_exception e then None else Some e))"

section \<open>Observing the stream\<close>

text \<open>
  Names for what the properties below speak of: the frames of one section, the pair of
  type and section of a frame, and the contents that the frames of a section carry.
\<close>

definition section_contents :: "string \<Rightarrow> frame list \<Rightarrow> string list" where
  \<comment> \<open>the \<open>content\<close> fields of the frames of type \<open>content\<close> of section \<open>s\<close>, in order\<close>
  "section_contents s frames =
     concat (map (\<lambda>f. if map_of f ''type'' = Some ''content'' \<and> map_of f ''section'' = Some s
                       then (case map_of f ''content'' of None \<Rightarrow> [] | Some c \<Rightarrow> [c])
                       else [])
               frames)"

definition body_frames :: "string \<Rightarrow> string \<Rightarrow> frame list" where
  "body_frames section_name content =
     (if content \<noteq> [] then content_loop section_name content 0
      else [[(''type'', ''content''), (''section'', section_name),
             (''content'', ''No specific issues found in this category.'')]])"

definition section_frames :: "string \<Rightarrow> string \<Rightarrow> frame list" where
  "section_frames section_name content =
     [(''type'', ''section_start''), (''section'', section_name)]
     # body_frames section_name content
     @ [[(''type'', ''section_complete''), (''section'', section_name)]]"

definition ts :: "frame \<Rightarrow> string option \<times> string option" where
  "ts f = (map_of f ''type'', map_of f ''section'')"

definition tsc :: "frame \<Rightarrow> string option \<times> string option \<times> string option" where
  "tsc f = (map_of f ''type'', map_of f ''section'', map_of f ''content'')"

definition section_shape :: "string \<Rightarrow> nat \<Rightarrow> (string option \<times> string option) list" where
  "section_shape s n =
     (Some ''section_start'', Some s) # replicate n (Some ''content'', Some s)
     @ [(Some ''section_complete'', Some s)]"

text \<open>An agent that answers with a fixed review, and one that fails, for running examples.\<close>

definition sample_reply :: string where
  "sample_reply =
     ''## SECURITY ANALYSIS'' @ [CHR 0x0A]
     @ ''The query is built by string concatenation: SQL injection.'' @ [CHR 0x0A]
     @ ''## Performance Analysis'' @ [CHR 0x0A]
     @ ''## READABILITY ANALYSIS'' @ [CHR 0x0A] @ ''Clear names.'' @ [CHR 0x0A]
     @ ''## COMPREHENSIVE SUMMARY'' @ [CHR 0x0A] @ ''Score: 4''"

definition sample_agent :: "string \<Rightarrow> py_exception + string" where
  "sample_agent query = Inr sample_reply"

definition failing_agent :: "string \<Rightarrow> py_exception + string" where
  "failing_agent query =
     Inl \<lparr>exc_type = ''RuntimeError'', exc_message = ''model unavailable'', is_exception = True\<rparr>"

definition interrupted_agent :: "string \<Rightarrow> py_exception + string" where
  \<comment> \<open>an agent whose call is interrupted: \<open>KeyboardInterrupt\<close> derives from \<open>BaseException\<close>
      and not from \<open>Exception\<close>\<close>
  "interrupted_agent query =
     Inl \<lparr>exc_type = ''KeyboardInterrupt'', exc_message = [], is_exception = False\<rparr>"

section \<open>The markers of a response\<close>







section \<open>Facts about strings\<close>

lemma py_in_sublist: "py_in sub s \<longleftrightarrow> sublist sub s"
  by (induction s) (auto simp: sublist_Cons_right)

lemma split_nl_ne: "split_nl s \<noteq> []"
  by (induction s) (auto split: list.splits)

lemma split_nl_takeWhile:
  "split_nl s = takeWhile (\<lambda>c. c \<noteq> CHR 0x0A) s #
     (case dropWhile (\<lambda>c. c \<noteq> CHR 0x0A) s of [] \<Rightarrow> [] | _ # r \<Rightarrow> split_nl r)"
  by (induction s) (auto split: list.splits simp: split_nl_ne)

lemma prefix_takeWhile_nl:
  assumes "CHR 0x0A \<notin> set sub"
  shows "prefix sub s \<longleftrightarrow> prefix sub (takeWhile (\<lambda>c. c \<noteq> CHR 0x0A) s)"
  using assms
proof (induction sub arbitrary: s)
  case Nil
  then show ?case by simp
next
  case (Cons a sub)
  then show ?case by (cases s) auto
qed

lemma py_in_lines:
  assumes "sub \<noteq> []" "CHR 0x0A \<notin> set sub"
  shows "py_in sub s \<longleftrightarrow> (\<exists>l \<in> set (split_nl s). py_in sub l)"
proof (induction s)
  case Nil
  then show ?case by simp
next
  case (Cons c cs)
  show ?case
  proof (cases "c = CHR 0x0A")
    case True
    have "\<not> prefix sub (c # cs)"
      using assms True by (cases sub) auto
    with True Cons assms show ?thesis by simp
  next
    case False
    obtain l ls where sp: "split_nl cs = l # ls"
      using split_nl_ne by (cases "split_nl cs") auto
    have l: "l = takeWhile (\<lambda>c. c \<noteq> CHR 0x0A) cs"
      using sp split_nl_takeWhile [of cs] by simp
    have "prefix sub (c # cs) \<longleftrightarrow> prefix sub (c # l)"
      using prefix_takeWhile_nl [OF assms(2), of "c # cs"] False l by simp
    with False sp Cons show ?thesis by auto
  qed
qed

lemma split_nl_append:
  assumes "CHR 0x0A \<notin> set a"
  shows "split_nl (a @ r) = (a @ hd (split_nl r)) # tl (split_nl r)"
  using assms by (induction a) (auto split: list.splits simp: split_nl_ne)

declare py_count.simps [simp del]

lemma py_count_Nil: "sub \<noteq> [] \<Longrightarrow> py_count sub [] = 0"
  by (simp add: py_count.simps)

lemma py_count_hit: "sub \<noteq> [] \<Longrightarrow> py_count sub (sub @ r) = 1 + py_count sub r"
  by (subst py_count.simps) simp

lemma py_count_miss:
  "sub \<noteq> [] \<Longrightarrow> \<not> prefix sub (c # cs) \<Longrightarrow> py_count sub (c # cs) = py_count sub cs"
  by (subst py_count.simps) simp

lemma py_count_lines:
  assumes "sub \<noteq> []" "CHR 0x0A \<notin> set sub"
  shows "py_count sub s = sum_list (map (py_count sub) (split_nl s))"
  using assms
proof (induction sub s rule: py_count.induct)
  case (1 sub s)
  note ne = \<open>sub \<noteq> []\<close> and nonl = \<open>CHR 0x0A \<notin> set sub\<close>
  show ?case
  proof (cases s)
    case Nil
    with ne show ?thesis by (simp add: py_count_Nil)
  next
    case (Cons c cs)
    show ?thesis
    proof (cases "prefix sub s")
      case True
      then obtain r where r: "s = sub @ r"
        by (auto simp: prefix_def)
      obtain l ls where sp: "split_nl r = l # ls"
        using split_nl_ne by (cases "split_nl r") auto
      have ih: "py_count sub r = sum_list (map (py_count sub) (split_nl r))"
      proof -
        have "drop (length sub) s = r" using r by simp
        then show ?thesis
          using "1.IH"(1) [OF ne _ True ne nonl] Cons by simp
      qed
      have "split_nl s = (sub @ l) # ls"
        using split_nl_append [OF nonl, of r] sp r by simp
      then show ?thesis
        using ih sp r ne by (simp add: py_count_hit)
    next
      case False
      have ih: "py_count sub cs = sum_list (map (py_count sub) (split_nl cs))"
        using "1.IH"(2) [OF ne _ False ne nonl] Cons by simp
      show ?thesis
      proof (cases "c = CHR 0x0A")
        case True
        with ih Cons False ne show ?thesis
          by (simp add: py_count_miss py_count_Nil)
      next
        case nonl_c: False
        obtain l ls where sp: "split_nl cs = l # ls"
          using split_nl_ne by (cases "split_nl cs") auto
        have l: "l = takeWhile (\<lambda>c. c \<noteq> CHR 0x0A) cs"
          using sp split_nl_takeWhile [of cs] by simp
        have "\<not> prefix sub (c # l)"
          using prefix_takeWhile_nl [OF nonl, of "c # cs"] False Cons nonl_c l by simp
        then have "py_count sub (c # l) = py_count sub l"
          using ne by (simp add: py_count_miss)
        with ih Cons False ne sp nonl_c show ?thesis
          by (simp add: py_count_miss)
      qed
    qed
  qed
qed


lemma lower_char_nl: "lower_char c = CHR 0x0A \<longleftrightarrow> c = CHR 0x0A"
  by (cases c) (auto simp: lower_char_def Let_def)

lemma split_nl_lower: "split_nl (py_lower s) = map py_lower (split_nl s)"
  by (induction s) (auto simp: py_lower_def lower_char_nl split: list.splits)


lemma reorder_py_in:
  assumes "mset (split_nl a) = mset (split_nl b)" "sub \<noteq> []" "CHR 0x0A \<notin> set sub"
  shows "py_in sub a = py_in sub b"
proof -
  have "set (split_nl a) = set (split_nl b)"
    using assms(1) by (rule mset_eq_setD)
  then show ?thesis
    using py_in_lines [OF assms(2,3), of a] py_in_lines [OF assms(2,3), of b] by simp
qed

lemma sum_list_map_mset:
  "sum_list (map f xs) = sum_mset (image_mset f (mset xs))"
  by (simp only: mset_map [symmetric] sum_mset_sum_list)

lemma reorder_py_count:
  assumes "mset (split_nl a) = mset (split_nl b)" "sub \<noteq> []" "CHR 0x0A \<notin> set sub"
  shows "py_count sub a = py_count sub b"
proof -
  have "sum_list (map (py_count sub) (split_nl a)) = sum_list (map (py_count sub) (split_nl b))"
    unfolding sum_list_map_mset using assms(1) by simp
  then show ?thesis
    using py_count_lines [OF assms(2,3), of a] py_count_lines [OF assms(2,3), of b] by simp
qed

lemma reorder_lower:
  assumes "mset (split_nl a) = mset (split_nl b)"
  shows "mset (split_nl (py_lower a)) = mset (split_nl (py_lower b))"
  using assms by (simp add: split_nl_lower)

lemma reorder_filter_length:
  assumes "mset xs = mset ys"
  shows "length (filter P xs) = length (filter P ys)"
proof -
  have "mset (filter P xs) = mset (filter P ys)"
    using assms by simp
  then show ?thesis by (rule mset_eq_length)
qed

lemma reorder_length:
  assumes "mset (split_nl a) = mset (split_nl b)"
  shows "length (split_nl a) = length (split_nl b)"
  using assms by (rule mset_eq_length)

lemma py_lower_Nil: "py_lower i = [] \<longleftrightarrow> i = []"
  by (simp add: py_lower_def)

lemma lower_char_nl': "CHR 0x0A = lower_char c \<longleftrightarrow> c = CHR 0x0A"
  using lower_char_nl [of c] by auto

lemma py_lower_no_nl: "CHR 0x0A \<in> set (py_lower i) \<longleftrightarrow> CHR 0x0A \<in> set i"
  by (induction i) (auto simp: py_lower_def lower_char_nl lower_char_nl')

section \<open>Facts about \<open>analyze_security_patterns\<close>\<close>

lemma findings_loop_filter:
  "findings_loop p code inds acc =
     acc @ map (finding p) (filter (\<lambda>i. sublist (py_lower i) (py_lower code)) inds)"
  by (induction inds arbitrary: acc) (simp_all add: py_in_sublist)

lemma patterns_keys:
  "map fst patterns =
     [''sql_injection'', ''xss'', ''auth'', ''secrets'', ''csrf'', ''input_validation'']"
  by (simp add: patterns_def)

lemma patterns_indicators_distinct:
  "list_all (\<lambda>(k, p). distinct (map py_lower (indicators p))) patterns"
  by (simp add: patterns_def py_lower_def lower_char_def)

lemma map_of_patterns_known:
  assumes "pattern_type \<in> {''sql_injection'', ''xss'', ''auth'', ''secrets'', ''csrf'',
                            ''input_validation''}"
  shows "\<exists>p. map_of patterns pattern_type = Some p \<and> distinct (map py_lower (indicators p))"
proof -
  have "pattern_type \<in> set (map fst patterns)"
    using assms unfolding patterns_keys by simp
  then obtain p where p: "map_of patterns pattern_type = Some p"
    by (metis map_of_eq_None_iff not_Some_eq set_map)
  then have "(pattern_type, p) \<in> set patterns"
    by (rule map_of_SomeD)
  then have "distinct (map py_lower (indicators p))"
    using patterns_indicators_distinct unfolding list_all_iff by blast
  with p show ?thesis by blast
qed

lemma map_of_patterns_unknown:
  assumes "pattern_type \<notin> {''sql_injection'', ''xss'', ''auth'', ''secrets'', ''csrf'',
                            ''input_validation''}"
  shows "map_of patterns pattern_type = None"
proof -
  have "pattern_type \<notin> set (map fst patterns)"
    using assms unfolding patterns_keys by simp
  then show ?thesis
    by (simp add: map_of_eq_None_iff)
qed

lemma patterns_indicators_plain:
  "list_all (\<lambda>(k, p). list_all (\<lambda>i. i \<noteq> [] \<and> CHR 0x0A \<notin> set i) (indicators p)) patterns"
  by (simp add: patterns_def)

lemma indicators_no_nl:
  assumes "map_of patterns pattern_type = Some p" "i \<in> set (indicators p)"
  shows "py_lower i \<noteq> [] \<and> CHR 0x0A \<notin> set (py_lower i)"
proof -
  have "(pattern_type, p) \<in> set patterns"
    using assms(1) by (rule map_of_SomeD)
  then have "list_all (\<lambda>i. i \<noteq> [] \<and> CHR 0x0A \<notin> set i) (indicators p)"
    using patterns_indicators_plain unfolding list_all_iff by blast
  then have "i \<noteq> [] \<and> CHR 0x0A \<notin> set i"
    using assms(2) unfolding list_all_iff by blast
  then show ?thesis
    by (simp add: py_lower_Nil py_lower_no_nl)
qed

lemma reorder_security:
  assumes "mset (split_nl code') = mset (split_nl code)"
  shows "(analyze_security_patterns code' pattern_type :: 'f pyval)
           = analyze_security_patterns code pattern_type"
proof (cases "map_of patterns pattern_type")
  case None
  then show ?thesis by (simp add: analyze_security_patterns_def)
next
  case (Some p)
  have "filter (\<lambda>i. sublist (py_lower i) (py_lower code')) (indicators p)
      = filter (\<lambda>i. sublist (py_lower i) (py_lower code)) (indicators p)"
  proof (rule filter_cong [OF refl])
    fix i assume "i \<in> set (indicators p)"
    then have "py_lower i \<noteq> []" "CHR 0x0A \<notin> set (py_lower i)"
      using indicators_no_nl [OF Some] by blast+
    then have "py_in (py_lower i) (py_lower code') = py_in (py_lower i) (py_lower code)"
      using reorder_py_in [OF reorder_lower [OF assms]] by blast
    then show "sublist (py_lower i) (py_lower code') = sublist (py_lower i) (py_lower code)"
      by (simp add: py_in_sublist)
  qed
  then show ?thesis
    using Some by (simp add: analyze_security_patterns_def findings_loop_filter Let_def)
qed


text \<open>
  C5. For a pattern type among the six known ones, the result holds one finding for each
  indicator of that pattern's table whose lowercased form is a substring of the lowercased
  code, in the table's order and with no indicator counted twice; \<open>total_findings\<close> is the
  number of these findings, and \<open>severity\<close> is the pattern's own severity when there is a
  finding and \<open>None\<close> when there is none.
\<close>

theorem analyze_security_patterns_findings:
  assumes "pattern_type \<in> {''sql_injection'', ''xss'', ''auth'', ''secrets'', ''csrf'',
                            ''input_validation''}"
  shows "\<exists>p hits. map_of patterns pattern_type = Some p
           \<and> distinct (map py_lower (indicators p))
           \<and> hits = filter (\<lambda>i. sublist (py_lower i) (py_lower code)) (indicators p)
           \<and> (analyze_security_patterns code pattern_type :: 'f pyval) =
               PDict [(''pattern_type'', PStr pattern_type),
                      (''findings'', PList (map (finding p) hits)),
                      (''total_findings'', PInt (int (length hits))),
                      (''severity'', PStr (if hits = [] then ''None'' else severity p))]"
proof -
  obtain p where p: "map_of patterns pattern_type = Some p"
    "distinct (map py_lower (indicators p))"
    using map_of_patterns_known [OF assms] by blast
  show ?thesis
    using p by (simp add: analyze_security_patterns_def findings_loop_filter Let_def)
qed

theorem analyze_security_patterns_findings_witness:
  "(analyze_security_patterns ''cur.execute(\"select 1\")'' ''sql_injection'' :: unit pyval) =
     PDict [(''pattern_type'', PStr ''sql_injection''),
            (''findings'',
               PList [PDict [(''indicator'', PStr ''execute(''), (''severity'', PStr ''Critical''),
                             (''description'', PStr ''Potential SQL injection vulnerability detected''),
                             (''found'', PBool True)],
                      PDict [(''indicator'', PStr ''SELECT''), (''severity'', PStr ''Critical''),
                             (''description'', PStr ''Potential SQL injection vulnerability detected''),
                             (''found'', PBool True)]]),
            (''total_findings'', PInt 2),
            (''severity'', PStr ''Critical'')]"
  using analyze_security_patterns_findings
          [of "''sql_injection''" "''cur.execute(\"select 1\")''", where 'f = unit]
  by (auto simp: patterns_def py_lower_def lower_char_def finding_def sublist_Cons_right)

text \<open>
  C10. For a pattern type outside the six known ones, the result is a dictionary whose only
  key is \<open>error\<close>, with a message that names the pattern type.
\<close>

theorem analyze_security_patterns_unknown:
  assumes "pattern_type \<notin> {''sql_injection'', ''xss'', ''auth'', ''secrets'', ''csrf'',
                            ''input_validation''}"
  shows "(analyze_security_patterns code pattern_type :: 'f pyval) =
           PDict [(''error'', PStr (''Unknown pattern type: '' @ pattern_type))]"
  using map_of_patterns_unknown [OF assms] by (simp add: analyze_security_patterns_def)

theorem analyze_security_patterns_unknown_witness:
  "(analyze_security_patterns ''x = 1'' ''xxe'' :: unit pyval) =
     PDict [(''error'', PStr ''Unknown pattern type: xxe'')]"
  using analyze_security_patterns_unknown [of "''xxe''" "''x = 1''", where 'f = unit]
  by simp

section \<open>Reordering the lines of the input\<close>

lemma reorder_quality:
  assumes "mset (split_nl code') = mset (split_nl code)"
  shows "assess_code_quality_metrics fops code' = assess_code_quality_metrics fops code"
proof -
  note low = reorder_lower [OF assms]
  have cnt: "\<And>sub. sub \<noteq> [] \<Longrightarrow> CHR 0x0A \<notin> set sub \<Longrightarrow>
               py_count sub (py_lower code') = py_count sub (py_lower code)"
    using reorder_py_count [OF low] by blast
  have inl: "\<And>sub. sub \<noteq> [] \<Longrightarrow> CHR 0x0A \<notin> set sub \<Longrightarrow>
               py_in sub (py_lower code') = py_in sub (py_lower code)"
    using reorder_py_in [OF low] by blast
  have inc: "\<And>sub. sub \<noteq> [] \<Longrightarrow> CHR 0x0A \<notin> set sub \<Longrightarrow>
               py_in sub code' = py_in sub code"
    using reorder_py_in [OF assms] by blast
  have fl: "\<And>P. length (filter P (split_nl code')) = length (filter P (split_nl code))"
    using reorder_filter_length [OF assms] by blast
  have c: "py_count ''def '' (py_lower code') = py_count ''def '' (py_lower code)"
    "py_count ''function '' (py_lower code') = py_count ''function '' (py_lower code)"
    "py_count ''const '' (py_lower code') = py_count ''const '' (py_lower code)"
    "py_count ''let '' (py_lower code') = py_count ''let '' (py_lower code)"
    "py_count ''var '' (py_lower code') = py_count ''var '' (py_lower code)"
    by (simp_all add: cnt)
  have l: "py_in ''try'' (py_lower code') = py_in ''try'' (py_lower code)"
    "py_in ''catch'' (py_lower code') = py_in ''catch'' (py_lower code)"
    "py_in ''except'' (py_lower code') = py_in ''except'' (py_lower code)"
    by (simp_all add: inl)
  have d: "py_in [CHR 0x22, CHR 0x22, CHR 0x22] code' = py_in [CHR 0x22, CHR 0x22, CHR 0x22] code"
    "py_in ''///'' code' = py_in ''///'' code"
    "py_in ''/**'' code' = py_in ''/**'' code"
    by (simp_all add: inc)
  have n: "list_ex (\<lambda>char. py_in char code') [''a='', ''b='', ''x='', ''y='', ''temp='', ''tmp='']
         = list_ex (\<lambda>char. py_in char code) [''a='', ''b='', ''x='', ''y='', ''temp='', ''tmp='']"
    by (simp add: inc)
  show ?thesis
    unfolding assess_code_quality_metrics_def Let_def
    by (simp only: c l d n fl)
qed



lemma ccm_flat_fields:
  "dict_get (calculate_complexity_metrics code :: 'f pyval) ''total_lines''
     = Some (PInt (int (length (split_nl code))))"
  "dict_get (calculate_complexity_metrics code :: 'f pyval) ''database_queries''
     = Some (PInt (int (py_count ''query'' (py_lower code))
                     + int (py_count ''select'' (py_lower code))
                     + int (py_count ''find('' (py_lower code))))"
  "dict_get (calculate_complexity_metrics code :: 'f pyval) ''async_operations''
     = Some (PInt (int (py_count ''async'' (py_lower code))
                           + int (py_count ''await'' (py_lower code))
                           + int (py_count ''promise'' (py_lower code))))"
  "dict_get (calculate_complexity_metrics code :: 'f pyval) ''blocking_operations''
     = Some (PInt (int (py_count ''sleep'' (py_lower code))
                              + int (py_count ''thread.'' (py_lower code))
                              + int (py_count ''lock'' (py_lower code))))"
  unfolding calculate_complexity_metrics_def Let_def case_prod_beta
  by simp_all

lemma reorder_complexity_flat:
  assumes "mset (split_nl code') = mset (split_nl code)"
    and "k \<in> {''total_lines'', ''database_queries'', ''async_operations'', ''blocking_operations''}"
  shows "dict_get (calculate_complexity_metrics code' :: 'f pyval) k
           = dict_get (calculate_complexity_metrics code) k"
proof -
  note low = reorder_lower [OF assms(1)]
  have cnt: "\<And>sub. sub \<noteq> [] \<Longrightarrow> CHR 0x0A \<notin> set sub \<Longrightarrow>
               py_count sub (py_lower code') = py_count sub (py_lower code)"
    using reorder_py_count [OF low] by blast
  show ?thesis
    using assms(2) reorder_length [OF assms(1)]
    by (auto simp: ccm_flat_fields cnt)
qed

text \<open>
  C4, as it stands, fails: \<open>calculate_complexity_metrics\<close> follows the nesting level from one
  line to the next, so it is not a function of flat counts. Two inputs with the same lines
  in another order give different \<open>nested_loops\<close> and \<open>max_nesting_level\<close>.
\<close>

theorem complexity_depends_on_line_order:
  "mset (split_nl (''for '' @ [CHR 0x0A] @ ''for '' @ [CHR 0x0A] @ ''}''))
     = mset (split_nl (''for '' @ [CHR 0x0A] @ ''}'' @ [CHR 0x0A] @ ''for ''))
   \<and> (calculate_complexity_metrics (''for '' @ [CHR 0x0A] @ ''for '' @ [CHR 0x0A] @ ''}'')
        :: unit pyval)
       = PDict [(''total_lines'', PInt 3), (''nested_loops'', PInt 1),
                (''database_queries'', PInt 0), (''async_operations'', PInt 0),
                (''blocking_operations'', PInt 0), (''max_nesting_level'', PInt 2),
                (''complexity_score'', PInt 7), (''complexity_level'', PStr ''Low''),
                (''performance_impact'', PStr ''Good performance characteristics'')]
   \<and> (calculate_complexity_metrics (''for '' @ [CHR 0x0A] @ ''}'' @ [CHR 0x0A] @ ''for '')
        :: unit pyval)
       = PDict [(''total_lines'', PInt 3), (''nested_loops'', PInt 0),
                (''database_queries'', PInt 0), (''async_operations'', PInt 0),
                (''blocking_operations'', PInt 0), (''max_nesting_level'', PInt 1),
                (''complexity_score'', PInt 2), (''complexity_level'', PStr ''Low''),
                (''performance_impact'', PStr ''Good performance characteristics'')]"
  by (simp add: calculate_complexity_metrics_def loops_def py_lower_def lower_char_def
        py_count.simps)

text \<open>
  C4, amended. Under any reordering of the lines of the input, the results of
  \<open>analyze_security_patterns\<close> and of \<open>assess_code_quality_metrics\<close> are unchanged, and so
  are the fields \<open>total_lines\<close>, \<open>database_queries\<close>, \<open>async_operations\<close> and
  \<open>blocking_operations\<close> of \<open>calculate_complexity_metrics\<close>. Its other fields come from the
  nesting level it follows along the lines and depend on their order.
\<close>

theorem line_order_invariance:
  assumes "mset (split_nl code') = mset (split_nl code)"
  shows "(analyze_security_patterns code' pattern_type :: 'f pyval)
           = analyze_security_patterns code pattern_type
       \<and> assess_code_quality_metrics fops code' = assess_code_quality_metrics fops code
       \<and> (\<forall>k \<in> {''total_lines'', ''database_queries'', ''async_operations'',
                  ''blocking_operations''}.
             dict_get (calculate_complexity_metrics code' :: 'f pyval) k
               = dict_get (calculate_complexity_metrics code) k)"
  using reorder_security [OF assms] reorder_quality [OF assms] reorder_complexity_flat [OF assms]
  by blast

theorem line_order_invariance_witness:
  "mset (split_nl (''  x=1'' @ [CHR 0x0A] @ ''# query'' @ [CHR 0x0A] @ ''def f():''))
     = mset (split_nl (''# query'' @ [CHR 0x0A] @ ''def f():'' @ [CHR 0x0A] @ ''  x=1''))
   \<and> (analyze_security_patterns (''  x=1'' @ [CHR 0x0A] @ ''# query'' @ [CHR 0x0A] @ ''def f():'')
         ''input_validation'' :: rat pyval)
       = analyze_security_patterns (''# query'' @ [CHR 0x0A] @ ''def f():'' @ [CHR 0x0A] @ ''  x=1'')
           ''input_validation''
   \<and> assess_code_quality_metrics rational_ops
         (''  x=1'' @ [CHR 0x0A] @ ''# query'' @ [CHR 0x0A] @ ''def f():'')
       = assess_code_quality_metrics rational_ops
           (''# query'' @ [CHR 0x0A] @ ''def f():'' @ [CHR 0x0A] @ ''  x=1'')
   \<and> dict_get (calculate_complexity_metrics
                  (''  x=1'' @ [CHR 0x0A] @ ''# query'' @ [CHR 0x0A] @ ''def f():'') :: rat pyval)
         ''database_queries''
       = dict_get (calculate_complexity_metrics
                    (''# query'' @ [CHR 0x0A] @ ''def f():'' @ [CHR 0x0A] @ ''  x=1''))
           ''database_queries''"
proof -
  have h: "mset (split_nl (''  x=1'' @ [CHR 0x0A] @ ''# query'' @ [CHR 0x0A] @ ''def f():''))
         = mset (split_nl (''# query'' @ [CHR 0x0A] @ ''def f():'' @ [CHR 0x0A] @ ''  x=1''))"
    by simp
  show ?thesis
    using h line_order_invariance [OF h, of "''input_validation''" rational_ops]
    by blast
qed

section \<open>Facts about \<open>parse_sections\<close> and the stream\<close>

declare content_loop.simps [simp del]

lemma content_loop_done: "\<not> i < length c \<Longrightarrow> content_loop sn c i = []"
  by (subst content_loop.simps) simp

lemma content_loop_step:
  "i < length c \<Longrightarrow> content_loop sn c i
     = [(''type'', ''content''), (''section'', sn), (''content'', take 50 (drop i c))]
       # content_loop sn c (i + 50)"
  by (subst content_loop.simps) (simp add: slice_def)

lemma chunks_done: "\<not> i < length c \<Longrightarrow> (length c - i + 49) div 50 = 0"
  by simp

lemma chunks_step:
  assumes "i < length c"
  shows "(length c - i + 49) div 50 = Suc ((length c - (i + 50) + 49) div 50)"
proof (cases "i + 50 \<le> length c")
  case True
  then have "length c - i + 49 = (length c - (i + 50) + 49) + 50" by simp
  then show ?thesis by (simp only: div_add_self2)
next
  case False
  then have z: "length c - (i + 50) = 0" by simp
  define m where "m = length c - i - 1"
  have m: "length c - i + 49 = 50 + m" "m < 50"
    using False assms by (simp_all add: m_def)
  have "(50 + m) div 50 = 1 + m div 50"
    by (simp only: div_add_self1)
  then show ?thesis
    unfolding z m(1) using m(2) by simp
qed

lemma rstrip_prefix: "a = rev (dropWhile P (rev a)) @ rev (takeWhile P (rev a))"
proof -
  have "rev a = takeWhile P (rev a) @ dropWhile P (rev a)" by simp
  then have "rev (rev a) = rev (takeWhile P (rev a) @ dropWhile P (rev a))"
    by (rule arg_cong)
  then show ?thesis by (simp only: rev_rev_ident rev_append)
qed

lemma strip_sublist: "sublist (strip s) s"
proof -
  have "prefix (rev (dropWhile is_space (rev (dropWhile is_space s)))) (dropWhile is_space s)"
    using rstrip_prefix [of "dropWhile is_space s" is_space] by (metis prefixI)
  then have "sublist (strip s) (dropWhile is_space s)"
    unfolding strip_def by (rule prefix_imp_sublist)
  moreover have "sublist (dropWhile is_space s) s"
    by (rule suffix_imp_sublist [OF suffix_dropWhile])
  ultimately show ?thesis
    by (rule sublist_order.order_trans)
qed

lemma strip_idem: "strip (strip s) = strip s"
proof -
  define a where "a = dropWhile is_space s"
  define b where "b = rev (dropWhile is_space (rev a))"
  have ab: "a = b @ rev (takeWhile is_space (rev a))"
    unfolding b_def by (rule rstrip_prefix)
  have lead: "dropWhile is_space b = b"
  proof (cases b)
    case Nil
    then show ?thesis by simp
  next
    case (Cons x xs)
    with ab have "a = x # (xs @ rev (takeWhile is_space (rev a)))" by simp
    then have "hd a = x" "a \<noteq> []"
      by (metis list.sel(1), metis list.distinct(1))
    then have "\<not> is_space x"
      unfolding a_def by (metis hd_dropWhile)
    with Cons show ?thesis by simp
  qed
  have trail: "dropWhile is_space (rev b) = rev b"
    by (simp add: b_def)
  have "strip s = b" by (simp add: strip_def a_def b_def)
  moreover have "strip b = b"
    by (simp add: strip_def lead trail)
  ultimately show ?thesis by simp
qed


lemma content_loop_contents:
  "map (\<lambda>f. (map_of f ''type'', map_of f ''section'', map_of f ''content'')) (content_loop sn c i)
     = map (\<lambda>k. (Some ''content'', Some sn, Some (take 50 (drop (i + 50 * k) c))))
         [0..<(length c - i + 49) div 50]"
proof (induction sn c i rule: content_loop.induct)
  case (1 sn c i)
  show ?case
  proof (cases "i < length c")
    case False
    then show ?thesis by (simp add: content_loop_done)
  next
    case True
    have ih: "map (\<lambda>f. (map_of f ''type'', map_of f ''section'', map_of f ''content''))
                (content_loop sn c (i + 50))
            = map (\<lambda>k. (Some ''content'', Some sn, Some (take 50 (drop (i + 50 + 50 * k) c))))
                [0..<(length c - (i + 50) + 49) div 50]"
      using "1.IH" [OF True] .
    have sh: "\<And>k. i + 50 * Suc k = i + 50 + 50 * k" by simp
    show ?thesis
      unfolding chunks_step [OF True] map_upt_Suc sh content_loop_step [OF True]
      by (simp add: ih)
  qed
qed

lemma concat_chunks:
  "concat (map (\<lambda>k. take 50 (drop (i + 50 * k) c)) [0..<(length c - i + 49) div 50]) = drop i c"
proof (induction "length c - i" arbitrary: i rule: less_induct)
  case less
  show ?case
  proof (cases "i < length c")
    case False
    then show ?thesis by simp
  next
    case True
    have sh: "\<And>k. i + 50 * Suc k = i + 50 + 50 * k" by simp
    have "length c - (i + 50) < length c - i" using True by simp
    then have ih: "concat (map (\<lambda>k. take 50 (drop (i + 50 + 50 * k) c))
                     [0..<(length c - (i + 50) + 49) div 50]) = drop (i + 50) c"
      by (rule less)
    have "take 50 (drop i c) @ drop (i + 50) c = drop i c"
      by (metis add.commute append_take_drop_id drop_drop)
    then show ?thesis
      unfolding chunks_step [OF True] map_upt_Suc sh
      by (simp add: ih)
  qed
qed

declare parse_loop.simps [simp del]

lemma section_key_range:
  "section_key n = Some k \<Longrightarrow> k \<in> {''security'', ''performance'', ''readability'', ''summary''}"
  by (auto simp: section_key_def split: if_splits)

lemma parse_loop_inv:
  assumes "dom sections = {''security'', ''performance'', ''readability'', ''summary''}"
    and "\<forall>k v. sections k = Some v \<longrightarrow> strip v = v"
  shows "dom (parse_loop i parts sections) = {''security'', ''performance'', ''readability'', ''summary''}
       \<and> (\<forall>k v. parse_loop i parts sections k = Some v \<longrightarrow> strip v = v)"
  using assms
proof (induction i parts sections rule: parse_loop.induct)
  case (1 i parts sections)
  show ?case
  proof (cases "i < length parts")
    case False
    then show ?thesis
      using "1.prems" by (subst parse_loop.simps, subst (2) parse_loop.simps) simp
  next
    case True
    show ?thesis
    proof (cases "i + 1 < length parts")
      case False
      have "parse_loop i parts sections = parse_loop (i + 2) parts sections"
        using True False by (subst parse_loop.simps) simp
      then show ?thesis
        using "1.IH"(2) [OF True False "1.prems"] by simp
    next
      case t2: True
      define sections' where "sections' =
        (case section_key (py_upper (strip (parts ! i))) of
           Some k \<Rightarrow> sections(k \<mapsto> strip (parts ! (i + 1)))
         | None \<Rightarrow> sections)"
      have eq: "parse_loop i parts sections = parse_loop (i + 2) parts sections'"
        by (subst parse_loop.simps) (simp only: True t2 if_True Let_def sections'_def)
      have d: "dom sections' = {''security'', ''performance'', ''readability'', ''summary''}"
        and s: "\<forall>k v. sections' k = Some v \<longrightarrow> strip v = v"
      proof -
        show "dom sections' = {''security'', ''performance'', ''readability'', ''summary''}"
        proof (cases "section_key (py_upper (strip (parts ! i)))")
          case None
          then show ?thesis using "1.prems"(1) by (simp add: sections'_def)
        next
          case (Some k)
          then have "k \<in> dom sections"
            using section_key_range [OF Some] "1.prems"(1) by simp
          then have "insert k (dom sections) = dom sections"
            by (rule insert_absorb)
          then show ?thesis
            using Some "1.prems"(1) by (simp add: sections'_def)
        qed
        show "\<forall>k v. sections' k = Some v \<longrightarrow> strip v = v"
        proof (cases "section_key (py_upper (strip (parts ! i)))")
          case None
          then show ?thesis using "1.prems"(2) by (simp add: sections'_def)
        next
          case (Some k)
          then show ?thesis
            using "1.prems"(2) by (simp add: sections'_def strip_idem)
        qed
      qed
      show ?thesis
        unfolding eq
        using "1.IH"(1) [OF True t2 refl refl d [unfolded sections'_def] s [unfolded sections'_def]]
        by (simp add: sections'_def)
    qed
  qed
qed

lemma strip_Nil: "strip [] = []"
  by (simp add: strip_def)

lemma parse_sections_inv:
  "dom (parse_sections t) = {''security'', ''performance'', ''readability'', ''summary''}
   \<and> (\<forall>k v. parse_sections t k = Some v \<longrightarrow> strip v = v)"
  unfolding parse_sections_def
  by (rule parse_loop_inv) (auto simp: strip_Nil split: if_splits)

lemma parse_sections_total:
  assumes "s \<in> set section_order"
  shows "\<exists>v. parse_sections t s = Some v \<and> strip v = v"
proof -
  have "s \<in> {''security'', ''performance'', ''readability'', ''summary''}"
    using assms by (simp add: section_order_def)
  then have "s \<in> dom (parse_sections t)"
    by (simp only: conjunct1 [OF parse_sections_inv [of t]])
  then obtain v where v: "parse_sections t s = Some v"
    by blast
  moreover have "\<forall>k v. parse_sections t k = Some v \<longrightarrow> strip v = v"
    by (rule conjunct2 [OF parse_sections_inv])
  ultimately have "strip v = v"
    by blast
  with v show ?thesis by blast
qed

lemma body_frames_tsc:
  "map tsc (body_frames sn c) =
     (if c \<noteq> [] then map (\<lambda>k. (Some ''content'', Some sn, Some (take 50 (drop (50 * k) c))))
                        [0..<(length c + 49) div 50]
      else [(Some ''content'', Some sn, Some ''No specific issues found in this category.'')])"
  using content_loop_contents [of sn c 0]
  by (simp add: body_frames_def tsc_def [abs_def])

lemma body_frames_ne: "body_frames sn c \<noteq> []"
proof (cases "c = []")
  case True
  then show ?thesis by (simp add: body_frames_def)
next
  case False
  then have "0 < length c" by simp
  then show ?thesis
    by (simp add: body_frames_def content_loop_step)
qed

lemma section_loop_total:
  assumes "\<forall>s \<in> set names. \<exists>v. sections s = Some v"
  shows "section_loop sections names
           = (concat (map (\<lambda>s. section_frames s (strip (the (sections s)))) names), None)"
  using assms
proof (induction names)
  case Nil
  then show ?case by simp
next
  case (Cons s names)
  then obtain v where v: "sections s = Some v" by auto
  have ih: "section_loop sections names
           = (concat (map (\<lambda>s. section_frames s (strip (the (sections s)))) names), None)"
    using Cons by simp
  show ?case
    by (simp add: v ih Let_def section_frames_def body_frames_def)
qed

lemma review_body_Inr:
  assumes "agent (build_query code) = Inr text"
  shows "review_body agent code
           = (concat (map (\<lambda>s. section_frames s (strip (the (parse_sections text s))))
                        section_order) @ [[(''type'', ''complete'')]], None)"
proof -
  have "\<forall>s \<in> set section_order. \<exists>v. parse_sections text s = Some v"
    using parse_sections_total by blast
  then show ?thesis
    using assms by (simp add: review_body_def Let_def section_loop_total)
qed

lemma review_body_Inl:
  assumes "agent (build_query code) = Inl e"
  shows "review_body agent code = ([], Some e)"
  using assms by (simp add: review_body_def)

lemma review_body_cases:
  "(\<exists>e. agent (build_query code) = Inl e \<and> review_body agent code = ([], Some e))
   \<or> (\<exists>text. agent (build_query code) = Inr text \<and> snd (review_body agent code) = None)"
proof (cases "agent (build_query code)")
  case (Inl e)
  then show ?thesis using review_body_Inl [of agent code e] by simp
next
  case (Inr reply)
  then show ?thesis using review_body_Inr [of agent code reply] by simp
qed

lemma stream_Inr:
  assumes "agent (build_query code) = Inr text"
  shows "generate_review_stream agent code
           = concat (map (\<lambda>s. section_frames s (strip (the (parse_sections text s))))
                       section_order) @ [[(''type'', ''complete'')]]"
  using assms review_body_Inr [of agent code "text"]
  by (simp add: generate_review_stream_def)

lemma body_frames_length:
  "length (body_frames sn c) = (if c \<noteq> [] then (length c + 49) div 50 else 1)"
proof -
  have "length (map tsc (body_frames sn c)) = (if c \<noteq> [] then (length c + 49) div 50 else 1)"
    unfolding body_frames_tsc by simp
  then show ?thesis by simp
qed

lemma body_frames_ts:
  "map ts (body_frames sn c) = replicate (length (body_frames sn c)) (Some ''content'', Some sn)"
proof -
  have "map ts (body_frames sn c) = map (\<lambda>p. (fst p, fst (snd p))) (map tsc (body_frames sn c))"
    by (simp add: ts_def tsc_def)
  also have "\<dots> = replicate (length (body_frames sn c)) (Some ''content'', Some sn)"
    unfolding body_frames_tsc body_frames_length
    by (simp add: map_replicate_const o_def)
  finally show ?thesis .
qed

lemma section_frames_ts:
  "map ts (section_frames s c) = section_shape s (length (body_frames s c))"
  by (simp add: section_frames_def section_shape_def body_frames_ts) (simp add: ts_def)

lemma body_frames_section:
  assumes "f \<in> set (body_frames sn c)"
  shows "map_of f ''type'' = Some ''content'' \<and> map_of f ''section'' = Some sn"
proof -
  have "ts f \<in> set (map ts (body_frames sn c))"
    using assms by simp
  then have "ts f = (Some ''content'', Some sn)"
    unfolding body_frames_ts by (simp split: if_splits)
  then show ?thesis by (simp add: ts_def)
qed

lemma section_frames_section:
  assumes "f \<in> set (section_frames sn c)"
  shows "map_of f ''section'' = Some sn"
  using assms body_frames_section [of f sn c]
  by (auto simp: section_frames_def)

lemma filter_section_frames:
  "filter (\<lambda>f. map_of f ''section'' = Some s) (section_frames s' c)
     = (if s' = s then section_frames s' c else [])"
proof (cases "s' = s")
  case True
  then have "\<forall>f \<in> set (section_frames s' c). map_of f ''section'' = Some s"
    using section_frames_section by blast
  then show ?thesis using True by simp
next
  case False
  have "\<forall>f \<in> set (section_frames s' c). map_of f ''section'' \<noteq> Some s"
    using section_frames_section False by fastforce
  then show ?thesis using False by (simp add: filter_empty_conv)
qed

lemma filter_section_concat:
  assumes "distinct names" "s \<in> set names"
  shows "filter (\<lambda>f. map_of f ''section'' = Some s)
           (concat (map (\<lambda>s'. section_frames s' (g s')) names))
         = section_frames s (g s)"
  using assms
proof (induction names)
  case Nil
  then show ?case by simp
next
  case (Cons a names)
  show ?case
  proof (cases "a = s")
    case True
    then have "s \<notin> set names" using Cons.prems by simp
    then have "filter (\<lambda>f. map_of f ''section'' = Some s)
                 (concat (map (\<lambda>s'. section_frames s' (g s')) names)) = []"
      by (induction names) (auto simp: filter_section_frames)
    then show ?thesis using True by (simp add: filter_section_frames)
  next
    case False
    then have "s \<in> set names" "distinct names" using Cons.prems by simp_all
    then show ?thesis using False Cons.IH by (simp add: filter_section_frames)
  qed
qed

lemma distinct_section_order: "distinct section_order"
  by (simp add: section_order_def)

lemma stream_section:
  assumes "agent (build_query code) = Inr reply" "s \<in> set section_order"
  shows "filter (\<lambda>f. map_of f ''section'' = Some s) (generate_review_stream agent code)
           = section_frames s (strip (the (parse_sections reply s)))"
  using assms(1) stream_Inr [of agent code reply]
    filter_section_concat [OF distinct_section_order assms(2),
      of "\<lambda>s. strip (the (parse_sections reply s))"]
  by simp

lemma section_contents_filter:
  "section_contents s frames
     = section_contents s (filter (\<lambda>f. map_of f ''section'' = Some s) frames)"
  by (induction frames) (simp_all add: section_contents_def)

lemma section_contents_tsc:
  "section_contents s frames
     = concat (map (\<lambda>(t, sec, c). if t = Some ''content'' \<and> sec = Some s
                                  then (case c of None \<Rightarrow> [] | Some c \<Rightarrow> [c]) else [])
                 (map tsc frames))"
  by (simp add: section_contents_def tsc_def o_def)

lemma section_contents_section_frames:
  "section_contents s (section_frames s c)
     = (if c \<noteq> [] then map (\<lambda>k. take 50 (drop (50 * k) c)) [0..<(length c + 49) div 50]
        else [''No specific issues found in this category.''])"
proof -
  have "section_contents s (section_frames s c) = section_contents s (body_frames s c)"
    by (simp add: section_frames_def section_contents_def)
  also have "\<dots> = (if c \<noteq> [] then map (\<lambda>k. take 50 (drop (50 * k) c)) [0..<(length c + 49) div 50]
        else [''No specific issues found in this category.''])"
    unfolding section_contents_tsc body_frames_tsc
    by (simp add: o_def concat_map_singleton)
  finally show ?thesis .
qed

lemma sample_parts:
  "re_split sample_reply =
     [[], ''SECURITY ANALYSIS'',
      [CHR 0x0A] @ ''The query is built by string concatenation: SQL injection.'' @ [CHR 0x0A],
      ''Performance Analysis'', [CHR 0x0A],
      ''READABILITY ANALYSIS'', [CHR 0x0A] @ ''Clear names.'' @ [CHR 0x0A],
      ''COMPREHENSIVE SUMMARY'', [CHR 0x0A] @ ''Score: 4'']"
  by code_simp

lemma sample_sections:
  "map (parse_sections sample_reply) section_order =
     [Some ''The query is built by string concatenation: SQL injection.'', Some [],
      Some ''Clear names.'', Some ''Score: 4'']"
  by code_simp

lemma sample_stream:
  "generate_review_stream sample_agent ''x = 1'' =
     [[(''type'', ''section_start''), (''section'', ''security'')],
      [(''type'', ''content''), (''section'', ''security''),
       (''content'', ''The query is built by string concatenation: SQL in'')],
      [(''type'', ''content''), (''section'', ''security''), (''content'', ''jection.'')],
      [(''type'', ''section_complete''), (''section'', ''security'')],
      [(''type'', ''section_start''), (''section'', ''performance'')],
      [(''type'', ''content''), (''section'', ''performance''),
       (''content'', ''No specific issues found in this category.'')],
      [(''type'', ''section_complete''), (''section'', ''performance'')],
      [(''type'', ''section_start''), (''section'', ''readability'')],
      [(''type'', ''content''), (''section'', ''readability''), (''content'', ''Clear names.'')],
      [(''type'', ''section_complete''), (''section'', ''readability'')],
      [(''type'', ''section_start''), (''section'', ''summary'')],
      [(''type'', ''content''), (''section'', ''summary''), (''content'', ''Score: 4'')],
      [(''type'', ''section_complete''), (''section'', ''summary'')],
      [(''type'', ''complete'')]]"
  by code_simp

section \<open>The stream of \<open>generate_review_stream\<close>\<close>

lemma section_shape_types:
  "\<forall>p \<in> set (section_shape s n). fst p \<in> {Some ''section_start'', Some ''content'',
       Some ''section_complete'', Some ''complete'', Some ''error''}"
  by (simp add: section_shape_def)

text \<open>
  C1. When the body of the generator raises no exception, the stream is, for the sections
  security, performance, readability and summary in this order, one frame of type
  \<open>section_start\<close>, one or more frames of type \<open>content\<close> and one frame of type
  \<open>section_complete\<close>, each naming the section, and then one frame of type \<open>complete\<close>
  that ends it. The type of every frame is one of the five types.
\<close>

theorem stream_frame_order:
  assumes "snd (review_body agent code) = None"
  shows "\<exists>n1 n2 n3 n4. 1 \<le> n1 \<and> 1 \<le> n2 \<and> 1 \<le> n3 \<and> 1 \<le> n4
           \<and> map (\<lambda>f. (map_of f ''type'', map_of f ''section''))
                 (generate_review_stream agent code)
               = section_shape ''security'' n1 @ section_shape ''performance'' n2
                 @ section_shape ''readability'' n3 @ section_shape ''summary'' n4
                 @ [(Some ''complete'', None)]
           \<and> (\<forall>f \<in> set (generate_review_stream agent code).
                 map_of f ''type'' \<in> {Some ''section_start'', Some ''content'',
                   Some ''section_complete'', Some ''complete'', Some ''error''})"
proof -
  obtain reply where reply: "agent (build_query code) = Inr reply"
    using review_body_cases [of agent code] assms by auto
  define g where "g = (\<lambda>s. strip (the (parse_sections reply s)))"
  define n where "n = (\<lambda>s. length (body_frames s (g s)))"
  have stream: "generate_review_stream agent code
      = section_frames ''security'' (g ''security'') @ section_frames ''performance'' (g ''performance'')
        @ section_frames ''readability'' (g ''readability'') @ section_frames ''summary'' (g ''summary'')
        @ [[(''type'', ''complete'')]]"
    using stream_Inr [of agent code reply] reply by (simp add: section_order_def g_def)
  have shape: "map ts (generate_review_stream agent code)
      = section_shape ''security'' (n ''security'') @ section_shape ''performance'' (n ''performance'')
        @ section_shape ''readability'' (n ''readability'') @ section_shape ''summary'' (n ''summary'')
        @ [(Some ''complete'', None)]"
    unfolding stream by (simp add: section_frames_ts n_def) (simp add: ts_def)
  have pos: "\<And>s. 1 \<le> n s"
    using body_frames_ne by (simp add: n_def Suc_le_eq)
  have types: "\<forall>f \<in> set (generate_review_stream agent code).
                 map_of f ''type'' \<in> {Some ''section_start'', Some ''content'',
                   Some ''section_complete'', Some ''complete'', Some ''error''}"
  proof
    fix f assume "f \<in> set (generate_review_stream agent code)"
    then have "ts f \<in> set (map ts (generate_review_stream agent code))" by simp
    then have "fst (ts f) \<in> {Some ''section_start'', Some ''content'',
                   Some ''section_complete'', Some ''complete'', Some ''error''}"
      unfolding shape using section_shape_types by fastforce
    then show "map_of f ''type'' \<in> {Some ''section_start'', Some ''content'',
                   Some ''section_complete'', Some ''complete'', Some ''error''}"
      by (simp add: ts_def)
  qed
  show ?thesis
    using shape pos types unfolding ts_def [abs_def] by blast
qed


theorem stream_frame_order_witness:
  "snd (review_body sample_agent ''x = 1'') = None
   \<and> (\<exists>n1 n2 n3 n4. 1 \<le> n1 \<and> 1 \<le> n2 \<and> 1 \<le> n3 \<and> 1 \<le> n4
           \<and> map (\<lambda>f. (map_of f ''type'', map_of f ''section''))
                 (generate_review_stream sample_agent ''x = 1'')
               = section_shape ''security'' n1 @ section_shape ''performance'' n2
                 @ section_shape ''readability'' n3 @ section_shape ''summary'' n4
                 @ [(Some ''complete'', None)]
           \<and> (\<forall>f \<in> set (generate_review_stream sample_agent ''x = 1'').
                 map_of f ''type'' \<in> {Some ''section_start'', Some ''content'',
                   Some ''section_complete'', Some ''complete'', Some ''error''}))"
proof -
  have h: "snd (review_body sample_agent ''x = 1'') = None"
    by code_simp
  show ?thesis
    by (rule conjI [OF h stream_frame_order [OF h]])
qed

text \<open>
  C2, as it stands, fails: the handler is \<open>except Exception\<close>, so an exception outside that
  class that is raised during the stream is not turned into a frame. When the call of the
  agent is interrupted, the stream holds no frame at all and the exception leaves the
  generator.
\<close>

theorem interrupt_yields_no_error_frame:
  "snd (review_body interrupted_agent ''x = 1'')
     = Some \<lparr>exc_type = ''KeyboardInterrupt'', exc_message = [], is_exception = False\<rparr>
   \<and> generate_review_stream interrupted_agent ''x = 1'' = []
   \<and> uncaught_exception interrupted_agent ''x = 1''
       = Some \<lparr>exc_type = ''KeyboardInterrupt'', exc_message = [], is_exception = False\<rparr>"
  by (simp add: review_body_def generate_review_stream_def uncaught_exception_def
        interrupted_agent_def)

text \<open>
  C2, amended. When the body of the generator raises an exception of the class \<open>Exception\<close>,
  the stream is one frame of type \<open>error\<close> whose message is the name of the exception's type,
  a colon, a space and the exception's message; it holds no frame of type \<open>complete\<close>, and no
  exception leaves the generator.
\<close>

theorem stream_error:
  assumes "snd (review_body agent code) = Some e"
    and "is_exception e"
  shows "generate_review_stream agent code
           = [[(''type'', ''error''), (''message'', exc_type e @ '': '' @ exc_message e)]]
       \<and> length (filter (\<lambda>f. map_of f ''type'' = Some ''error'')
                   (generate_review_stream agent code)) = 1
       \<and> (\<forall>f \<in> set (generate_review_stream agent code). map_of f ''type'' \<noteq> Some ''complete'')
       \<and> uncaught_exception agent code = None"
proof -
  have rb: "review_body agent code = ([], Some e)"
    using review_body_cases [of agent code] assms(1) by auto
  then have "generate_review_stream agent code
           = [[(''type'', ''error''), (''message'', exc_type e @ '': '' @ exc_message e)]]"
    using assms(2) by (simp add: generate_review_stream_def)
  moreover have "uncaught_exception agent code = None"
    using rb assms(2) by (simp add: uncaught_exception_def)
  ultimately show ?thesis by simp
qed

theorem stream_error_witness:
  "snd (review_body failing_agent ''x = 1'')
     = Some \<lparr>exc_type = ''RuntimeError'', exc_message = ''model unavailable'',
             is_exception = True\<rparr>
   \<and> is_exception \<lparr>exc_type = ''RuntimeError'', exc_message = ''model unavailable'',
                    is_exception = True\<rparr>
   \<and> generate_review_stream failing_agent ''x = 1''
       = [[(''type'', ''error''), (''message'', ''RuntimeError: model unavailable'')]]
   \<and> uncaught_exception failing_agent ''x = 1'' = None"
proof -
  have h: "snd (review_body failing_agent ''x = 1'')
             = Some \<lparr>exc_type = ''RuntimeError'', exc_message = ''model unavailable'',
                     is_exception = True\<rparr>"
    by (simp add: review_body_def failing_agent_def)
  have h2: "is_exception \<lparr>exc_type = ''RuntimeError'', exc_message = ''model unavailable'',
                           is_exception = True\<rparr>"
    by simp
  show ?thesis
    using h h2 stream_error [OF h h2] by simp
qed

text \<open>
  C3, as it stands, fails: for a section whose parsed text is empty the frame of type
  \<open>content\<close> carries a fixed sentence, which is not a substring of the empty text.
\<close>

theorem placeholder_is_not_section_text:
  "[(''type'', ''content''), (''section'', ''performance''),
    (''content'', ''No specific issues found in this category.'')]
     \<in> set (generate_review_stream sample_agent ''x = 1'')
   \<and> parse_sections sample_reply ''performance'' = Some []
   \<and> \<not> sublist ''No specific issues found in this category.'' []"
proof -
  have "parse_sections sample_reply ''performance'' = Some []"
    using sample_sections by (simp add: section_order_def)
  then show ?thesis
    by (simp add: sample_stream)
qed

text \<open>
  C3, amended. Every frame of type \<open>content\<close> names one of the four sections and carries at
  most 50 characters. When the parsed text of that section is not empty, the content is a
  substring of it; when it is empty, the content is the fixed sentence.
\<close>

theorem content_frame_bound:
  assumes "agent (build_query code) = Inr reply"
    and "f \<in> set (generate_review_stream agent code)"
    and "map_of f ''type'' = Some ''content''"
  shows "\<exists>s v c. s \<in> set section_order \<and> map_of f ''section'' = Some s
           \<and> parse_sections reply s = Some v \<and> map_of f ''content'' = Some c
           \<and> length c \<le> 50
           \<and> (if v = [] then c = ''No specific issues found in this category.''
               else sublist c v)"
proof -
  define g where "g = (\<lambda>s. strip (the (parse_sections reply s)))"
  have "f \<in> set (concat (map (\<lambda>s. section_frames s (g s)) section_order))"
    using assms stream_Inr [of agent code reply] by (auto simp: g_def)
  then obtain s where s: "s \<in> set section_order" and f: "f \<in> set (section_frames s (g s))"
    by auto
  obtain v where v: "parse_sections reply s = Some v" "strip v = v"
    using parse_sections_total [OF s] by blast
  then have gs: "g s = v" by (simp add: g_def)
  have "f \<in> set (body_frames s v)"
    using f assms(3) unfolding gs by (auto simp: section_frames_def)
  then have "tsc f \<in> set (map tsc (body_frames s v))" by simp
  then have "\<exists>c. tsc f = (Some ''content'', Some s, Some c) \<and> length c \<le> 50
               \<and> (if v = [] then c = ''No specific issues found in this category.''
                   else sublist c v)"
    unfolding body_frames_tsc
    by (cases "v = []") (auto intro: sublist_order.order_trans [OF sublist_take sublist_drop])
  then show ?thesis
    using s v(1) by (auto simp: tsc_def)
qed

theorem content_frame_bound_witness:
  "sample_agent (build_query ''x = 1'') = Inr sample_reply
   \<and> [(''type'', ''content''), (''section'', ''security''), (''content'', ''jection.'')]
        \<in> set (generate_review_stream sample_agent ''x = 1'')
   \<and> (\<exists>s v c. s \<in> set section_order
         \<and> map_of [(''type'', ''content''), (''section'', ''security''), (''content'', ''jection.'')]
              ''section'' = Some s
         \<and> parse_sections sample_reply s = Some v
         \<and> map_of [(''type'', ''content''), (''section'', ''security''), (''content'', ''jection.'')]
              ''content'' = Some c
         \<and> length c \<le> 50
         \<and> (if v = [] then c = ''No specific issues found in this category.''
             else sublist c v))"
proof -
  have h1: "sample_agent (build_query ''x = 1'') = Inr sample_reply"
    by (simp add: sample_agent_def)
  have h2: "[(''type'', ''content''), (''section'', ''security''), (''content'', ''jection.'')]
        \<in> set (generate_review_stream sample_agent ''x = 1'')"
    by (simp add: sample_stream)
  have h3: "map_of [(''type'', ''content''), (''section'', ''security''), (''content'', ''jection.'')]
              ''type'' = Some ''content''"
    by simp
  show ?thesis
    using h1 h2
      content_frame_bound [of sample_agent "''x = 1''" sample_reply
        "[(''type'', ''content''), (''section'', ''security''), (''content'', ''jection.'')]",
        OF h1 h2 h3]
    by (intro conjI)
qed

text \<open>
  C6. For a section whose parsed text is not empty, the contents of its frames of type
  \<open>content\<close>, in the order of the stream, are the slices of the text of 50 characters taken
  at the indices 0, 50, 100 and so on, and their concatenation is the text, which is stripped.
\<close>

theorem content_chunks:
  assumes "agent (build_query code) = Inr reply"
    and "s \<in> set section_order"
    and "parse_sections reply s = Some v"
    and "v \<noteq> []"
  shows "section_contents s (generate_review_stream agent code)
           = map (\<lambda>k. take 50 (drop (50 * k) v)) [0..<(length v + 49) div 50]
       \<and> concat (section_contents s (generate_review_stream agent code)) = v
       \<and> strip v = v"
proof -
  have sv: "strip v = v"
    using parse_sections_total [OF assms(2), of reply] assms(3) by simp
  have "section_contents s (generate_review_stream agent code)
          = section_contents s (section_frames s (strip (the (parse_sections reply s))))"
    using section_contents_filter [of s "generate_review_stream agent code"]
      stream_section [of agent code reply s, OF assms(1,2)]
    by simp
  then have c: "section_contents s (generate_review_stream agent code)
           = map (\<lambda>k. take 50 (drop (50 * k) v)) [0..<(length v + 49) div 50]"
    using assms(3,4) sv by (simp add: section_contents_section_frames)
  have "concat (map (\<lambda>k. take 50 (drop (50 * k) v)) [0..<(length v + 49) div 50]) = v"
    using concat_chunks [of 0 v] by simp
  with c sv show ?thesis by simp
qed

theorem content_chunks_witness:
  "sample_agent (build_query ''x = 1'') = Inr sample_reply
   \<and> ''security'' \<in> set section_order
   \<and> parse_sections sample_reply ''security''
       = Some ''The query is built by string concatenation: SQL injection.''
   \<and> section_contents ''security'' (generate_review_stream sample_agent ''x = 1'')
       = [''The query is built by string concatenation: SQL in'', ''jection.'']
   \<and> concat (section_contents ''security'' (generate_review_stream sample_agent ''x = 1''))
       = ''The query is built by string concatenation: SQL injection.''"
proof -
  have h1: "sample_agent (build_query ''x = 1'') = Inr sample_reply"
    by (simp add: sample_agent_def)
  have h2: "''security'' \<in> set section_order"
    by (simp add: section_order_def)
  have h3: "parse_sections sample_reply ''security''
       = Some ''The query is built by string concatenation: SQL injection.''"
    using sample_sections by (simp add: section_order_def)
  have h4: "''The query is built by string concatenation: SQL injection.'' \<noteq> []"
    by simp
  have e: "map (\<lambda>k. take 50 (drop (50 * k)
                  ''The query is built by string concatenation: SQL injection.''))
             [0..<(length ''The query is built by string concatenation: SQL injection.'' + 49) div 50]
         = [''The query is built by string concatenation: SQL in'', ''jection.'']"
    by code_simp
  show ?thesis
    using h1 h2 h3
      content_chunks [of sample_agent "''x = 1''" sample_reply "''security''"
        "''The query is built by string concatenation: SQL injection.''", OF h1 h2 h3 h4]
    unfolding e by (intro conjI) simp_all
qed

text \<open>
  C8. For a section whose parsed text is empty, the frames of the stream that name the
  section are its \<open>section_start\<close> frame, one frame of type \<open>content\<close> with the fixed sentence
  and its \<open>section_complete\<close> frame.
\<close>

theorem empty_section_placeholder:
  assumes "agent (build_query code) = Inr reply"
    and "s \<in> set section_order"
    and "parse_sections reply s = Some []"
  shows "filter (\<lambda>f. map_of f ''section'' = Some s) (generate_review_stream agent code)
           = [[(''type'', ''section_start''), (''section'', s)],
              [(''type'', ''content''), (''section'', s),
               (''content'', ''No specific issues found in this category.'')],
              [(''type'', ''section_complete''), (''section'', s)]]"
  using stream_section [of agent code reply s, OF assms(1,2)] assms(3)
  by (simp add: section_frames_def body_frames_def strip_Nil)

theorem empty_section_placeholder_witness:
  "sample_agent (build_query ''x = 1'') = Inr sample_reply
   \<and> ''performance'' \<in> set section_order
   \<and> parse_sections sample_reply ''performance'' = Some []
   \<and> filter (\<lambda>f. map_of f ''section'' = Some ''performance'')
        (generate_review_stream sample_agent ''x = 1'')
       = [[(''type'', ''section_start''), (''section'', ''performance'')],
          [(''type'', ''content''), (''section'', ''performance''),
           (''content'', ''No specific issues found in this category.'')],
          [(''type'', ''section_complete''), (''section'', ''performance'')]]"
proof -
  have h1: "sample_agent (build_query ''x = 1'') = Inr sample_reply"
    by (simp add: sample_agent_def)
  have h2: "''performance'' \<in> set section_order"
    by (simp add: section_order_def)
  have h3: "parse_sections sample_reply ''performance'' = Some []"
    using sample_sections by (simp add: section_order_def)
  show ?thesis
    using h1 h2 h3
      empty_section_placeholder [of sample_agent "''x = 1''" sample_reply "''performance''",
        OF h1 h2 h3]
    by (intro conjI)
qed

section \<open>The markers that \<open>parse_sections\<close> assigns from\<close>



lemma lower_char_hash: "lower_char c = CHR ''#'' \<Longrightarrow> c = CHR ''#''"
proof (cases c)
  case (Char b0 b1 b2 b3 b4 b5 b6 b7)
  assume "lower_char c = CHR ''#''"
  then show ?thesis
    unfolding Char
    by (cases b0; cases b1; cases b2; cases b3; cases b4; cases b5; cases b6; cases b7;
        simp add: lower_char_def Let_def)
qed









declare re_split.simps [simp del]





























end
